theory Spec2Isabelle
  imports Complex_Main
begin


section \<open>Errors raised by the evaluation script\<close>

text \<open>
  Every exception that the modelled parts of \<open>predict_debias.py\<close> can raise is a value:
  a dictionary lookup of a missing key, a tensor operation on incompatible or empty
  shapes, and the read of a local variable that was never assigned.
\<close>

datatype error =
  KeyError string
  | RuntimeError
  | IndexError
  | UnboundLocalError

section \<open>Python's decimal rendering of integers\<close>

definition digit_char :: "nat \<Rightarrow> char" where
  "digit_char d = ''0123456789'' ! d"

function str_nat :: "nat \<Rightarrow> string" where
  "str_nat n = (if n < 10 then [digit_char n] else str_nat (n div 10) @ [digit_char (n mod 10)])"
  by pat_completeness auto
termination
  by (relation "measure id") auto

definition str_int :: "int \<Rightarrow> string" where
  "str_int i = (if i < 0 then CHR ''-'' # str_nat (nat (- i)) else str_nat (nat i))"

fun join :: "string \<Rightarrow> string list \<Rightarrow> string" where
  "join sep [] = []"
| "join sep [x] = x"
| "join sep (x # y # ys) = x @ sep @ join sep (y # ys)"

section \<open>Ordinal ranking\<close>

text \<open>
  \<open>scipy.stats.rankdata(a, method='ordinal')\<close> is library code: it sorts the indices of
  \<open>a\<close> by value with a stable sort (\<open>np.argsort(a, kind='mergesort')\<close>), writes
  \<open>inv[sorter] = arange(n)\<close> and returns \<open>inv + 1\<close>.  \<open>sort_key\<close> is a stable
  insertion sort, so it computes the same permutation.
\<close>

definition argsort :: "real list \<Rightarrow> nat list" where
  "argsort a = sort_key (\<lambda>i. a ! i) [0..<length a]"

definition inverse_perm :: "nat list \<Rightarrow> nat list" where
  "inverse_perm sorter =
     fold (\<lambda>j inv. inv[sorter ! j := j]) [0..<length sorter] (replicate (length sorter) 0)"

definition rankdata_ordinal :: "real list \<Rightarrow> int list" where
  "rankdata_ordinal a = map (\<lambda>r. int r + 1) (inverse_perm (argsort a))"

text \<open>
  Lines 317 to 326 of \<open>evaluate\<close>: \<open>y_pred = len(y_pred_prob) - rankdata(...) + 1\<close>,
  then the ranks are rendered and joined into the output line.
\<close>

definition y_pred :: "real list \<Rightarrow> int list" where
  "y_pred y_pred_prob = map (\<lambda>r. int (length y_pred_prob) - r + 1) (rankdata_ordinal y_pred_prob)"

definition prediction_line :: "int \<Rightarrow> real list \<Rightarrow> string" where
  "prediction_line impression_id y_pred_prob =
     str_int impression_id @ '' ['' @ join '','' (map str_int (y_pred y_pred_prob)) @ '']'' @ [CHR 0x0A]"

text \<open>
  \<open>before a k i\<close>: index \<open>k\<close> comes before index \<open>i\<close> in the stable ascending order of
  the values of \<open>a\<close>.
\<close>
definition before :: "real list \<Rightarrow> nat \<Rightarrow> nat \<Rightarrow> bool" where
  "before a k i \<longleftrightarrow> a ! k < a ! i \<or> (a ! k = a ! i \<and> k < i)"

section \<open>The prediction loop of \<open>evaluate\<close>\<close>

text \<open>
  One row of \<open>BehaviorsDataset\<close>, as the loader with batch size 1 hands it to the loop.
  \<open>impressions\<close> holds the tokens of the form \<open>newsid-label\<close>.
\<close>

record behavior =
  impression_id :: int
  user :: string
  time :: string
  clicked_news_string :: string
  impressions :: "string list"

text \<open>\<open>news[0].split('-')[0]\<close>: the token up to its first hyphen.\<close>

definition news_id_of :: "string \<Rightarrow> string" where
  "news_id_of news = takeWhile (\<lambda>c. c \<noteq> CHR ''-'') news"

text \<open>
  A list comprehension of dictionary lookups \<open>[d[x] for x in xs]\<close>: the first missing key
  raises \<open>KeyError\<close>.
\<close>

fun lookup_all :: "(string \<rightharpoonup> 'v) \<Rightarrow> string list \<Rightarrow> error + 'v list" where
  "lookup_all d [] = Inr []"
| "lookup_all d (x # xs) =
     (case d x of
        None \<Rightarrow> Inl (KeyError x)
      | Some v \<Rightarrow> (case lookup_all d xs of Inl e \<Rightarrow> Inl e | Inr vs \<Rightarrow> Inr (v # vs)))"

text \<open>\<open>torch.stack\<close> refuses an empty list of tensors.\<close>

definition stack :: "'v list \<Rightarrow> error + 'v list" where
  "stack vs = (if vs = [] then Inl RuntimeError else Inr vs)"

text \<open>
  The body of the loop after the count check (lines 307 to 326).  \<open>get_prediction\<close> is the
  model's scoring operation, a parameter.  The result is the line written to the file, or
  the exception that leaves the loop.
\<close>

definition predict_impression ::
  "('v list \<Rightarrow> 'u \<Rightarrow> real list) \<Rightarrow> (string \<rightharpoonup> 'v) \<Rightarrow> (string \<rightharpoonup> 'u) \<Rightarrow> behavior \<Rightarrow> error + string" where
  "predict_impression get_prediction news2vector user2vector minibatch =
     (case lookup_all news2vector (map news_id_of (impressions minibatch)) of
        Inl e \<Rightarrow> Inl e
      | Inr vs \<Rightarrow>
          (case stack vs of
             Inl e \<Rightarrow> Inl e
           | Inr candidate_news_vector \<Rightarrow>
               (case user2vector (clicked_news_string minibatch) of
                  None \<Rightarrow> Inl (KeyError (clicked_news_string minibatch))
                | Some user_vector \<Rightarrow>
                    Inr (prediction_line (impression_id minibatch)
                           (get_prediction candidate_news_vector user_vector)))))"

text \<open>
  The loop of lines 301 to 326, with the counter and the lines written so far as its state.
  It returns the lines in the file when the loop is left and the exception, if one left it.
\<close>

fun predict_loop ::
  "('v list \<Rightarrow> 'u \<Rightarrow> real list) \<Rightarrow> (string \<rightharpoonup> 'v) \<Rightarrow> (string \<rightharpoonup> 'u) \<Rightarrow> int \<Rightarrow>
   int \<Rightarrow> string list \<Rightarrow> behavior list \<Rightarrow> string list \<times> error option" where
  "predict_loop get_prediction news2vector user2vector max_count count out_file [] =
     (out_file, None)"
| "predict_loop get_prediction news2vector user2vector max_count count out_file (minibatch # rest) =
     (if count + 1 = max_count then (out_file, None)
      else
        (case predict_impression get_prediction news2vector user2vector minibatch of
           Inl e \<Rightarrow> (out_file, Some e)
         | Inr line \<Rightarrow>
             predict_loop get_prediction news2vector user2vector max_count (count + 1)
               (out_file @ [line]) rest))"

definition write_predictions ::
  "('v list \<Rightarrow> 'u \<Rightarrow> real list) \<Rightarrow> (string \<rightharpoonup> 'v) \<Rightarrow> (string \<rightharpoonup> 'u) \<Rightarrow> int \<Rightarrow>
   behavior list \<Rightarrow> string list \<times> error option" where
  "write_predictions get_prediction news2vector user2vector max_count behaviors =
     predict_loop get_prediction news2vector user2vector max_count 0 [] behaviors"

section \<open>Filling the vector dictionaries\<close>

text \<open>
  The inner loop shared by both stages (lines 235 to 237 and 285 to 287):
  \<open>for id, vector in zip(ids, vectors): if id not in d: d[id] = vector\<close>.
\<close>

fun store_new :: "(string \<rightharpoonup> 'v) \<Rightarrow> (string \<times> 'v) list \<Rightarrow> (string \<rightharpoonup> 'v)" where
  "store_new d [] = d"
| "store_new d ((k, v) # kvs) = store_new (if d k = None then d(k \<mapsto> v) else d) kvs"

text \<open>
  A minibatch of the news loader: its \<open>id\<close> column and the remaining columns, which only
  the encoder reads.
\<close>

record 'a news_minibatch =
  id_column :: "string list"
  news_columns :: 'a

text \<open>
  One iteration of the news loop (lines 230 to 237).  \<open>get_news_vector\<close> is the model's
  news encoder, a parameter.  The state pairs the dictionary with a log that is not in the
  source: the id column of every minibatch handed to the encoder, in order, so that the
  encoder's invocations can be counted.
\<close>

definition news_step ::
  "('a news_minibatch \<Rightarrow> 'v list) \<Rightarrow> (string \<rightharpoonup> 'v) \<times> string list list \<Rightarrow> 'a news_minibatch \<Rightarrow>
   (string \<rightharpoonup> 'v) \<times> string list list" where
  "news_step get_news_vector st minibatch =
     (case st of (news2vector, calls) \<Rightarrow>
        if \<exists>id\<in>set (id_column minibatch). news2vector id = None
        then (store_new news2vector (zip (id_column minibatch) (get_news_vector minibatch)),
              calls @ [id_column minibatch])
        else (news2vector, calls))"

definition news_loop ::
  "('a news_minibatch \<Rightarrow> 'v list) \<Rightarrow> (string \<rightharpoonup> 'v) \<times> string list list \<Rightarrow> 'a news_minibatch list \<Rightarrow>
   (string \<rightharpoonup> 'v) \<times> string list list" where
  "news_loop get_news_vector st news_dataloader = foldl (news_step get_news_vector) st news_dataloader"

text \<open>
  A minibatch of the user loader: the \<open>clicked_news_string\<close> column (the keys) and the
  \<open>clicked_news\<close> column, a list of lists of news ids.
\<close>

record user_minibatch =
  user_strings :: "string list"
  clicked_news :: "string list list"

text \<open>
  The nested comprehension of lines 279 to 283: each inner list is looked up in
  \<open>news2vector\<close> and stacked; the outer \<open>torch.stack\<close> needs a non-empty list of tensors of
  one shape; the result is transposed.
\<close>

fun lookup_rows :: "(string \<rightharpoonup> 'v) \<Rightarrow> string list list \<Rightarrow> error + 'v list list" where
  "lookup_rows d [] = Inr []"
| "lookup_rows d (news_list # rest) =
     (case lookup_all d news_list of
        Inl e \<Rightarrow> Inl e
      | Inr vs \<Rightarrow>
          (case stack vs of
             Inl e \<Rightarrow> Inl e
           | Inr t \<Rightarrow> (case lookup_rows d rest of Inl e \<Rightarrow> Inl e | Inr ts \<Rightarrow> Inr (t # ts))))"

definition stack_rows :: "'v list list \<Rightarrow> error + 'v list list" where
  "stack_rows ts =
     (if ts = [] \<or> (\<exists>t\<in>set ts. length t \<noteq> length (hd ts)) then Inl RuntimeError else Inr ts)"

definition clicked_news_vector :: "(string \<rightharpoonup> 'v) \<Rightarrow> string list list \<Rightarrow> error + 'v list list" where
  "clicked_news_vector news2vector rows =
     (case lookup_rows news2vector rows of
        Inl e \<Rightarrow> Inl e
      | Inr ts \<Rightarrow> (case stack_rows ts of Inl e \<Rightarrow> Inl e | Inr t \<Rightarrow> Inr (transpose t)))"

text \<open>
  One iteration of the user loop (lines 275 to 287), with the same kind of log: the key
  column of every minibatch for which \<open>get_user_vector\<close> was called.
\<close>

definition user_step ::
  "('v list list \<Rightarrow> 'u list) \<Rightarrow> (string \<rightharpoonup> 'v) \<Rightarrow> (string \<rightharpoonup> 'u) \<times> string list list \<Rightarrow> user_minibatch \<Rightarrow>
   error + (string \<rightharpoonup> 'u) \<times> string list list" where
  "user_step get_user_vector news2vector st minibatch =
     (case st of (user2vector, calls) \<Rightarrow>
        if \<exists>user_string\<in>set (user_strings minibatch). user2vector user_string = None
        then
          (case clicked_news_vector news2vector (clicked_news minibatch) of
             Inl e \<Rightarrow> Inl e
           | Inr cnv \<Rightarrow>
               Inr (store_new user2vector (zip (user_strings minibatch) (get_user_vector cnv)),
                    calls @ [user_strings minibatch]))
        else Inr (user2vector, calls))"

fun user_loop ::
  "('v list list \<Rightarrow> 'u list) \<Rightarrow> (string \<rightharpoonup> 'v) \<Rightarrow> (string \<rightharpoonup> 'u) \<times> string list list \<Rightarrow>
   user_minibatch list \<Rightarrow> error + (string \<rightharpoonup> 'u) \<times> string list list" where
  "user_loop get_user_vector news2vector st [] = Inr st"
| "user_loop get_user_vector news2vector st (minibatch # rest) =
     (case user_step get_user_vector news2vector st minibatch of
        Inl e \<Rightarrow> Inl e
      | Inr st' \<Rightarrow> user_loop get_user_vector news2vector st' rest)"

section \<open>Tensors and floating-point values\<close>

text \<open>
  A \<open>float32\<close> value is modelled as a real number or one of the three special values of
  IEEE arithmetic.  Rounding and the sign of zero are not modelled: the sums, products
  and quotients of finite values are computed exactly, and a quotient by zero is a
  special value.  The overflow of a result beyond the largest \<open>float32\<close> is modelled
  where the source squares its values, in the norm of \<open>neutralize_embeddings\<close>.
\<close>

datatype fval = Finite real | PosInf | NegInf | NaN

fun fneg :: "fval \<Rightarrow> fval" where
  "fneg (Finite a) = Finite (- a)"
| "fneg PosInf = NegInf"
| "fneg NegInf = PosInf"
| "fneg NaN = NaN"

fun fadd :: "fval \<Rightarrow> fval \<Rightarrow> fval" where
  "fadd (Finite a) (Finite b) = Finite (a + b)"
| "fadd NaN _ = NaN"
| "fadd _ NaN = NaN"
| "fadd PosInf NegInf = NaN"
| "fadd NegInf PosInf = NaN"
| "fadd PosInf _ = PosInf"
| "fadd _ PosInf = PosInf"
| "fadd NegInf _ = NegInf"
| "fadd _ NegInf = NegInf"

definition fsub :: "fval \<Rightarrow> fval \<Rightarrow> fval" where
  "fsub a b = fadd a (fneg b)"

fun fmul :: "fval \<Rightarrow> fval \<Rightarrow> fval" where
  "fmul (Finite a) (Finite b) = Finite (a * b)"
| "fmul NaN _ = NaN"
| "fmul _ NaN = NaN"
| "fmul (Finite a) PosInf = (if a = 0 then NaN else if 0 < a then PosInf else NegInf)"
| "fmul (Finite a) NegInf = (if a = 0 then NaN else if 0 < a then NegInf else PosInf)"
| "fmul PosInf (Finite b) = (if b = 0 then NaN else if 0 < b then PosInf else NegInf)"
| "fmul NegInf (Finite b) = (if b = 0 then NaN else if 0 < b then NegInf else PosInf)"
| "fmul PosInf PosInf = PosInf"
| "fmul NegInf NegInf = PosInf"
| "fmul PosInf NegInf = NegInf"
| "fmul NegInf PosInf = NegInf"

fun fdiv :: "fval \<Rightarrow> fval \<Rightarrow> fval" where
  "fdiv (Finite a) (Finite b) =
     (if b \<noteq> 0 then Finite (a / b)
      else if a = 0 then NaN else if 0 < a then PosInf else NegInf)"
| "fdiv NaN _ = NaN"
| "fdiv _ NaN = NaN"
| "fdiv (Finite a) _ = Finite 0"
| "fdiv PosInf (Finite b) = (if 0 \<le> b then PosInf else NegInf)"
| "fdiv NegInf (Finite b) = (if 0 \<le> b then NegInf else PosInf)"
| "fdiv _ _ = NaN"

text \<open>
  The largest finite \<open>float32\<close> and the smallest normal one; a finite result above the
  range becomes an infinity; the square root of IEEE arithmetic.
\<close>

definition float32_max :: real where
  "float32_max = (2 ^ 24 - 1) * 2 ^ 104"

definition float32_min_normal :: real where
  "float32_min_normal = 1 / 2 ^ 126"

fun overflow :: "fval \<Rightarrow> fval" where
  "overflow (Finite r) =
     (if float32_max < r then PosInf else if r < - float32_max then NegInf else Finite r)"
| "overflow v = v"

fun fsqrt :: "fval \<Rightarrow> fval" where
  "fsqrt (Finite r) = (if r < 0 then NaN else Finite (sqrt r))"
| "fsqrt PosInf = PosInf"
| "fsqrt NegInf = NaN"
| "fsqrt NaN = NaN"

text \<open>
  A two-dimensional tensor of finite values: its rows, and its second dimension, which
  the rows do not determine when there are none.
\<close>

record tensor2 =
  shape1 :: nat
  rows :: "real list list"

definition shape0 :: "tensor2 \<Rightarrow> nat" where
  "shape0 t = length (rows t)"

definition well_shaped :: "tensor2 \<Rightarrow> bool" where
  "well_shaped t = list_all (\<lambda>r. length r = shape1 t) (rows t)"

section \<open>Tensors in memory\<close>

text \<open>
  \<open>neutralize_embeddings\<close> updates a tensor that its caller still holds, so tensors are
  objects in a store: a reference is an index into the list of the objects allocated so
  far, an in-place operation replaces the object at its index, and an operation that
  builds a tensor appends one.  The entries of a stored tensor are \<open>float32\<close> values,
  special ones included.  Temporaries that no variable holds after the statement that
  builds them are not stored.
\<close>

record ftensor =
  fshape1 :: nat
  frows :: "fval list list"

definition tensor_of :: "tensor2 \<Rightarrow> ftensor" where
  "tensor_of t = \<lparr>fshape1 = shape1 t, frows = map (map Finite) (rows t)\<rparr>"

text \<open>\<open>t[:, i]\<close>\<close>

definition fcolumn :: "ftensor \<Rightarrow> nat \<Rightarrow> fval list" where
  "fcolumn t i = map (\<lambda>r. r ! i) (frows t)"

section \<open>\<open>neutralize_embeddings\<close>\<close>

text \<open>
  Line 198 for one row \<open>e\<close> of \<open>embeddings\<close>: the entry of
  \<open>matmul(embeddings, component)\<close> is the sum of the products of \<open>e\<close> and \<open>component\<close>,
  and the row of \<open>projections\<close> is that entry times \<open>component\<close>.  Line 199 subtracts it
  from \<open>e\<close>.
\<close>

definition fdot :: "fval list \<Rightarrow> fval list \<Rightarrow> fval" where
  "fdot x y = foldl fadd (Finite 0) (map2 fmul x y)"

definition subtract_projection :: "fval list \<Rightarrow> fval list \<Rightarrow> fval list" where
  "subtract_projection component e = map2 fsub e (map (\<lambda>c. fmul (fdot e component) c) component)"

text \<open>
  Line 202 for one row: \<open>torch.norm(embeddings, p=2, dim=1)\<close> is the square root of the
  sum of the squares, an infinity when that sum exceeds the \<open>float32\<close> range.  Line 203
  divides the row by it.
\<close>

definition embeddings_norm :: "fval list \<Rightarrow> fval" where
  "embeddings_norm e = fsqrt (overflow (foldl fadd (Finite 0) (map (\<lambda>x. fmul x x) e)))"

definition normalize_row :: "fval list \<Rightarrow> fval list" where
  "normalize_row e = map (\<lambda>x. fdiv x (embeddings_norm e)) e"

text \<open>
  The loop of lines 196 to 203 over the remaining column indices.  \<open>embeddings\<close> and
  \<open>bias_subspace\<close> are references into the store \<open>h\<close>; the local
  \<open>normalized_embeddings\<close> is a reference or unassigned (\<open>None\<close>).  \<open>matmul\<close> raises when
  the second dimension of \<open>embeddings\<close> differs from the first of \<open>bias_subspace\<close>.
  \<open>embeddings -= projections\<close> replaces the object at \<open>embeddings\<close>;
  \<open>embeddings / embeddings_norm\<close> allocates a new tensor.
\<close>

fun neutralize_loop ::
  "ftensor list \<Rightarrow> nat \<Rightarrow> nat \<Rightarrow> nat list \<Rightarrow> nat option \<Rightarrow> ftensor list \<times> (error + nat option)" where
  "neutralize_loop h embeddings bias_subspace [] normalized_embeddings =
     (h, Inr normalized_embeddings)"
| "neutralize_loop h embeddings bias_subspace (i # is) normalized_embeddings =
     (let component = fcolumn (h ! bias_subspace) i in
      if fshape1 (h ! embeddings) \<noteq> length component then (h, Inl RuntimeError)
      else
        (let updated = (h ! embeddings)
               \<lparr>frows := map (subtract_projection component) (frows (h ! embeddings))\<rparr>;
             h1 = h[embeddings := updated];
             quotient = \<lparr>fshape1 = fshape1 updated, frows = map normalize_row (frows updated)\<rparr>
         in neutralize_loop (h1 @ [quotient]) embeddings bias_subspace is (Some (length h1))))"

text \<open>
  The function returns the store as the loop left it, and either the reference it
  returns or the exception; \<open>return normalized_embeddings\<close> raises when the local was
  never assigned.
\<close>

definition neutralize_embeddings ::
  "ftensor list \<Rightarrow> nat \<Rightarrow> nat \<Rightarrow> ftensor list \<times> (error + nat)" where
  "neutralize_embeddings h embeddings bias_subspace =
     (case neutralize_loop h embeddings bias_subspace
             [0..<fshape1 (h ! bias_subspace)] None of
        (h', Inl e) \<Rightarrow> (h', Inl e)
      | (h', Inr None) \<Rightarrow> (h', Inl UnboundLocalError)
      | (h', Inr (Some normalized_embeddings)) \<Rightarrow> (h', Inr normalized_embeddings))"

text \<open>
  A dictionary comprehension \<open>{k: v for k, v in kvs}\<close>: a later pair overwrites an
  earlier one with the same key.
\<close>

definition dict_of :: "(string \<times> 'v) list \<Rightarrow> (string \<rightharpoonup> 'v)" where
  "dict_of kvs = fold (\<lambda>(k, v) d. d(k \<mapsto> v)) kvs Map.empty"

text \<open>
  Lines 258 to 260 of \<open>evaluate\<close>: the embeddings tensor is neutralized and the rows of
  the tensor that the call returns are zipped with the news ids into the new
  \<open>news2vector\<close>.
\<close>

definition neutralize_news2vector ::
  "ftensor list \<Rightarrow> string list \<Rightarrow> nat \<Rightarrow> nat \<Rightarrow> ftensor list \<times> (error + (string \<rightharpoonup> fval list))" where
  "neutralize_news2vector h news_ids embeddings_tensor bias_subspace =
     (case neutralize_embeddings h embeddings_tensor bias_subspace of
        (h', Inl e) \<Rightarrow> (h', Inl e)
      | (h', Inr neutralized_embeddings_tensor) \<Rightarrow>
          (h', Inr (dict_of (zip news_ids (frows (h' ! neutralized_embeddings_tensor))))))"

section \<open>Exact vector operations, used to state the properties\<close>

text \<open>
  The dot product, a column of a finite tensor, a vector with its projection on a
  direction removed, the 2-norm, the rows after the projections on the columns \<open>is\<close>
  have been removed in that order, and the property of the subspace that the claims
  assume: its columns are orthonormal.
\<close>

definition dot :: "real list \<Rightarrow> real list \<Rightarrow> real" where
  "dot x y = sum_list (map2 (*) x y)"

definition column :: "tensor2 \<Rightarrow> nat \<Rightarrow> real list" where
  "column t i = map (\<lambda>r. r ! i) (rows t)"

definition remove_projection :: "real list \<Rightarrow> real list \<Rightarrow> real list" where
  "remove_projection c e = map2 (-) e (map (\<lambda>x. dot e c * x) c)"

definition l2norm :: "real list \<Rightarrow> real" where
  "l2norm e = sqrt (sum_list (map (\<lambda>x. x * x) e))"

definition removed :: "tensor2 \<Rightarrow> nat list \<Rightarrow> real list list \<Rightarrow> real list list" where
  "removed B is rs = fold (\<lambda>i. map (remove_projection (column B i))) is rs"

definition orthonormal_columns :: "tensor2 \<Rightarrow> bool" where
  "orthonormal_columns t =
     (\<forall>i<shape1 t. \<forall>j<shape1 t. dot (column t i) (column t j) = (if i = j then 1 else 0))"

section \<open>\<open>compute_category_means\<close> and \<open>construct_c\<close>\<close>










section \<open>The scatter matrix as the specification describes it\<close>









section \<open>A small run used to evaluate the prediction loop\<close>

text \<open>
  Two news items with one-dimensional vectors, one user, and a scoring operation that
  returns the candidate vectors themselves as click probabilities.
\<close>

definition example_score :: "real list \<Rightarrow> real \<Rightarrow> real list" where
  "example_score candidate_news_vector user_vector = candidate_news_vector"

definition example_news2vector :: "string \<rightharpoonup> real" where
  "example_news2vector = [''N1'' \<mapsto> 1/10, ''N2'' \<mapsto> 8/10]"

definition example_user2vector :: "string \<rightharpoonup> real" where
  "example_user2vector = [''N1'' \<mapsto> 0]"

definition example_behavior :: "int \<Rightarrow> string list \<Rightarrow> behavior" where
  "example_behavior i news =
     \<lparr>impression_id = i, user = ''U1'', time = ''11/15/2019 8:55:22 AM'',
      clicked_news_string = ''N1'', impressions = news\<rparr>"

text \<open>A news encoder that gives every record of a minibatch the vector \<open>1\<close>.\<close>

definition example_encoder :: "unit news_minibatch \<Rightarrow> real list" where
  "example_encoder minibatch = map (\<lambda>_. 1) (id_column minibatch)"

definition example_news_batch :: "string list \<Rightarrow> unit news_minibatch" where
  "example_news_batch ids = \<lparr>id_column = ids, news_columns = ()\<rparr>"

text \<open>A user encoder that gives every history of a minibatch the vector \<open>2\<close>.\<close>

definition example_user_encoder :: "real list list \<Rightarrow> real list" where
  "example_user_encoder clicked = map (\<lambda>_. 2) clicked"



text \<open>An embedding and a bias direction that is not along an axis.\<close>

definition example_E :: tensor2 where
  "example_E = \<lparr>shape1 = 2, rows = [[1, 2]]\<rparr>"

definition example_B :: tensor2 where
  "example_B = \<lparr>shape1 = 1, rows = [[3/5], [4/5]]\<rparr>"

section \<open>Properties of the ordinal ranking\<close>

lemma insort_key_before:
  "sorted_wrt (before a) ys \<Longrightarrow> \<forall>y\<in>set ys. x < y \<Longrightarrow>
   sorted_wrt (before a) (insort_key (\<lambda>i. a ! i) x ys)"
proof (induction ys)
  case Nil
  then show ?case by simp
next
  case (Cons y ys)
  show ?case
  proof (cases "a ! x \<le> a ! y")
    case True
    have "before a x z" if "z \<in> set (y # ys)" for z
    proof -
      have "a ! y \<le> a ! z" using Cons.prems(1) that by (auto simp: before_def)
      moreover have "x < z" using Cons.prems(2) that by auto
      ultimately show ?thesis using True by (auto simp: before_def)
    qed
    then show ?thesis using True Cons.prems(1) by simp
  next
    case False
    then have "before a y x" by (simp add: before_def)
    moreover have "sorted_wrt (before a) (insort_key (\<lambda>i. a ! i) x ys)"
      using Cons by simp
    ultimately show ?thesis using False Cons.prems(1) by (auto simp: set_insort_key)
  qed
qed

lemma sort_key_before:
  "sorted_wrt (<) xs \<Longrightarrow> sorted_wrt (before a) (sort_key (\<lambda>i. a ! i) xs)"
proof (induction xs)
  case Nil
  then show ?case by simp
next
  case (Cons x xs)
  then show ?case by (simp add: insort_key_before)
qed

lemma argsort_before: "sorted_wrt (before a) (argsort a)"
  unfolding argsort_def by (rule sort_key_before) simp

lemma set_argsort: "set (argsort a) = {0..<length a}"
  by (simp add: argsort_def)

lemma length_argsort: "length (argsort a) = length a"
  by (simp add: argsort_def)

lemma distinct_argsort: "distinct (argsort a)"
  by (simp add: argsort_def)

lemma position_card:
  assumes "sorted_wrt (before a) xs" and "distinct xs" and "j < length xs"
  shows "card {k \<in> set xs. before a k (xs ! j)} = j"
proof -
  have split: "xs = take j xs @ xs ! j # drop (Suc j) xs"
    using assms(3) by (simp add: id_take_nth_drop)
  have sw: "sorted_wrt (before a) (take j xs @ xs ! j # drop (Suc j) xs)"
    using assms(1) split by simp
  have pre: "\<forall>k\<in>set (take j xs). before a k (xs ! j)"
    using sw by (simp add: sorted_wrt_append)
  have post: "\<forall>k\<in>set (drop (Suc j) xs). before a (xs ! j) k"
    using sw by (simp add: sorted_wrt_append)
  have asym: "\<not> (before a k l \<and> before a l k)" for k l
    by (auto simp: before_def)
  have "set xs = set (take j xs) \<union> {xs ! j} \<union> set (drop (Suc j) xs)"
    by (subst split) auto
  then have "{k \<in> set xs. before a k (xs ! j)} = set (take j xs)"
    using pre post asym by blast
  moreover have "card (set (take j xs)) = j"
    using assms(2,3) by (simp add: distinct_card)
  ultimately show ?thesis by simp
qed

lemma fold_update_length:
  "length (fold (\<lambda>j inv. inv[s ! j := j]) js init) = length init"
  by (induction js arbitrary: init) auto

lemma fold_update_nth:
  assumes "distinct s" and "\<forall>j\<in>set js. j < length s" and "distinct js"
    and "\<forall>j\<in>set js. s ! j < length init"
    and "j \<in> set js"
  shows "fold (\<lambda>j inv. inv[s ! j := j]) js init ! (s ! j) = j"
  using assms
proof (induction js arbitrary: init rule: rev_induct)
  case Nil
  then show ?case by simp
next
  case (snoc x js)
  show ?case
  proof (cases "j = x")
    case True
    then show ?thesis using snoc.prems by (simp add: fold_update_length)
  next
    case False
    then have jin: "j \<in> set js" using snoc.prems by simp
    have "s ! x \<noteq> s ! j"
      using snoc.prems False jin by (auto simp: nth_eq_iff_index_eq)
    moreover have "fold (\<lambda>j inv. inv[s ! j := j]) js init ! (s ! j) = j"
      using snoc.IH[of init] snoc.prems jin by simp
    ultimately show ?thesis by simp
  qed
qed

lemma length_inverse_perm: "length (inverse_perm s) = length s"
  by (simp add: inverse_perm_def fold_update_length)

lemma inverse_perm_nth:
  assumes "distinct s" and "set s = {0..<length s}" and "j < length s"
  shows "inverse_perm s ! (s ! j) = j"
proof -
  have "\<forall>j\<in>set [0..<length s]. s ! j < length (replicate (length s) (0::nat))"
    using assms(2) by (metis atLeastLessThan_iff atLeastLessThan_upt length_replicate nth_mem)
  then show ?thesis
    unfolding inverse_perm_def using assms
    by (intro fold_update_nth) auto
qed

lemma inverse_perm_argsort:
  assumes "i < length a"
  shows "inverse_perm (argsort a) ! i = card {k. k < length a \<and> before a k i}"
proof -
  let ?s = "argsort a"
  have "i \<in> set ?s" using assms by (simp add: set_argsort)
  then obtain j where j: "j < length ?s" "?s ! j = i"
    by (auto simp: in_set_conv_nth)
  have "inverse_perm ?s ! (?s ! j) = j"
    using j(1) by (intro inverse_perm_nth) (simp_all add: distinct_argsort set_argsort length_argsort)
  moreover have "card {k \<in> set ?s. before a k (?s ! j)} = j"
    using j(1) by (intro position_card argsort_before distinct_argsort)
  moreover have "{k \<in> set ?s. before a k i} = {k. k < length a \<and> before a k i}"
    by (auto simp: set_argsort)
  ultimately show ?thesis using j(2) by simp
qed


lemma y_pred_nth:
  assumes "i < length p"
  shows "y_pred p ! i = int (length p) - int (card {k. k < length p \<and> before p k i})"
  using assms
  by (simp add: y_pred_def rankdata_ordinal_def length_inverse_perm length_argsort inverse_perm_argsort)





lemma before_trans: "before a i j \<Longrightarrow> before a j k \<Longrightarrow> before a i k"
  by (auto simp: before_def)

lemma y_pred_before:
  assumes "i < length p" and "j < length p" and "before p i j"
  shows "y_pred p ! j < y_pred p ! i"
proof -
  let ?B = "\<lambda>i. {k. k < length p \<and> before p k i}"
  have "?B i \<subseteq> ?B j" using assms(3) by (auto intro: before_trans)
  moreover have "i \<in> ?B j" using assms by simp
  moreover have "i \<notin> ?B i" by (simp add: before_def)
  ultimately have "?B i \<subset> ?B j" by (metis psubsetI)
  then have "card (?B i) < card (?B j)" by (intro psubset_card_mono) auto
  then show ?thesis using assms by (simp add: y_pred_nth)
qed


section \<open>Properties of the loop body\<close>



section \<open>Claims about the ranks written per impression\<close>

text \<open>
  C1, as stated, fails: the claim gives the smaller rank to the earlier of two candidates
  with equal probability and expects \<open>[2, 3, 1]\<close> for \<open>[0.5, 0.5, 0.9]\<close>.  The code
  subtracts the ascending stable ordinal rank from the length, so the order among
  equal probabilities is reversed and the ranks are \<open>[3, 2, 1]\<close>.
\<close>

theorem tie_break_counterexample:
  "y_pred [1/2, 1/2, 9/10] = [3, 2, 1] \<and> y_pred [1/2, 1/2, 9/10] \<noteq> [2, 3, 1]"
proof -
  have "y_pred [1/2, 1/2, 9/10] = [3, 2, 1]"
    by (simp add: y_pred_def rankdata_ordinal_def inverse_perm_def argsort_def upt_rec)
  then show ?thesis by simp
qed

text \<open>
  C1 (amended): when two candidates of an impression have equal click probability, the
  later-indexed candidate receives the smaller (better) rank.
\<close>

theorem tie_break_later_index_wins:
  "i < j \<Longrightarrow> j < length p \<Longrightarrow> p ! i = p ! j \<Longrightarrow> y_pred p ! j < y_pred p ! i"
  by (rule y_pred_before) (auto simp: before_def)

theorem tie_break_later_index_wins_witness:
  "(0::nat) < 1 \<and> 1 < length [1/2, 1/2, 9/10 :: real]
   \<and> [1/2, 1/2, 9/10 :: real] ! 0 = [1/2, 1/2, 9/10] ! 1
   \<and> y_pred [1/2, 1/2, 9/10] ! 1 < y_pred [1/2, 1/2, 9/10] ! 0"
  using tie_break_later_index_wins [of 0 1 "[1/2, 1/2, 9/10]"] by simp



section \<open>Properties of the prediction loop\<close>

lemma lookup_all_missing:
  "\<exists>x\<in>set xs. d x = None \<Longrightarrow> \<exists>k. d k = None \<and> k \<in> set xs \<and> lookup_all d xs = Inl (KeyError k)"
proof (induction xs)
  case Nil
  then show ?case by simp
next
  case (Cons x xs)
  show ?case
  proof (cases "d x")
    case None
    then show ?thesis by auto
  next
    case (Some v)
    then have "\<exists>x\<in>set xs. d x = None" using Cons.prems by auto
    then obtain k where "d k = None" "k \<in> set xs" "lookup_all d xs = Inl (KeyError k)"
      using Cons.IH by blast
    then show ?thesis using Some by auto
  qed
qed

lemma predict_impression_missing:
  assumes "\<exists>news\<in>set (impressions mb). n2v (news_id_of news) = None"
  shows "\<exists>k. n2v k = None \<and> k \<in> news_id_of ` set (impressions mb)
     \<and> predict_impression gp n2v u2v mb = Inl (KeyError k)"
proof -
  have "\<exists>x\<in>set (map news_id_of (impressions mb)). n2v x = None"
    using assms by auto
  from lookup_all_missing[OF this] show ?thesis
    by (auto simp: predict_impression_def)
qed

lemma predict_loop_prefix:
  assumes "\<forall>b\<in>set pre. \<exists>l. predict_impression gp n2v u2v b = Inr l"
    and "max_count \<le> count \<or> count + int (length pre) < max_count"
  shows "predict_loop gp n2v u2v max_count count out (pre @ rest) =
         predict_loop gp n2v u2v max_count (count + int (length pre))
           (out @ map (\<lambda>b. projr (predict_impression gp n2v u2v b)) pre) rest"
  using assms
proof (induction pre arbitrary: count out)
  case Nil
  then show ?case by simp
next
  case (Cons b pre)
  from Cons.prems(1) obtain l where l: "predict_impression gp n2v u2v b = Inr l" by auto
  have ne: "count + 1 \<noteq> max_count" using Cons.prems(2) by auto
  let ?f = "\<lambda>b. projr (predict_impression gp n2v u2v b)"
  have ih: "predict_loop gp n2v u2v max_count (count + 1) (out @ [l]) (pre @ rest) =
         predict_loop gp n2v u2v max_count (count + 1 + int (length pre))
           ((out @ [l]) @ map ?f pre) rest"
    using Cons.prems by (intro Cons.IH) auto
  have c: "count + 1 + int (length pre) = count + int (length (b # pre))" by simp
  have o: "(out @ [l]) @ map ?f pre = out @ map ?f (b # pre)" using l by simp
  have "predict_loop gp n2v u2v max_count count out ((b # pre) @ rest) =
        predict_loop gp n2v u2v max_count (count + 1) (out @ [l]) (pre @ rest)"
    using l ne by simp
  also note ih
  finally show ?case unfolding c o .
qed

lemmas example_run_defs =
  write_predictions_def predict_impression_def stack_def news_id_of_def
  example_score_def example_news2vector_def example_user2vector_def example_behavior_def
  prediction_line_def str_int_def digit_char_def y_pred_def
  rankdata_ordinal_def inverse_perm_def argsort_def upt_rec

text \<open>
  With \<open>1 \<le> max_count \<le> length behaviors\<close> and no failing impression, the loop writes the
  lines of the first \<open>max_count - 1\<close> impressions.
\<close>

lemma max_count_stops_one_early:
  assumes "\<forall>b\<in>set behaviors. \<exists>l. predict_impression gp n2v u2v b = Inr l"
    and "1 \<le> n" and "n \<le> length behaviors"
  shows "write_predictions gp n2v u2v (int n) behaviors =
     (map (\<lambda>b. projr (predict_impression gp n2v u2v b)) (take (n - 1) behaviors), None)"
proof -
  let ?pre = "take (n - 1) behaviors" and ?rest = "drop (n - 1) behaviors"
  have len: "length ?pre = n - 1" using assms(3) by simp
  have "?rest \<noteq> []" using assms(2,3) by simp
  then obtain b rest' where rest: "?rest = b # rest'" by (cases ?rest) auto
  have ok: "\<forall>b\<in>set ?pre. \<exists>l. predict_impression gp n2v u2v b = Inr l"
    using assms(1) by (meson in_set_takeD)
  have cnt: "0 + int (length ?pre) + 1 = int n" using assms(2) len by simp
  have "predict_loop gp n2v u2v (int n) 0 [] (?pre @ ?rest) =
        predict_loop gp n2v u2v (int n) (0 + int (length ?pre))
          ([] @ map (\<lambda>b. projr (predict_impression gp n2v u2v b)) ?pre) ?rest"
    using ok assms(2) len by (intro predict_loop_prefix) simp_all
  also have "\<dots> = (map (\<lambda>b. projr (predict_impression gp n2v u2v b)) ?pre, None)"
    unfolding rest using cnt by simp
  finally show ?thesis by (simp add: write_predictions_def)
qed

section \<open>Claims about the prediction loop\<close>

text \<open>
  C7: with the maximum impression count set to \<open>N\<close> and at least \<open>N\<close> impressions in the
  stream, the claim expects \<open>N\<close> lines.  The loop increments the counter and leaves when
  it equals \<open>max_count\<close> before it ranks the impression, so with \<open>max_count = 2\<close> and two
  impressions a single line is written.
\<close>

theorem max_count_two_writes_one_line:
  "write_predictions example_score example_news2vector example_user2vector 2
     [example_behavior 1 [''N1-0'', ''N2-1''], example_behavior 2 [''N2-0'', ''N1-1'']]
   = ([''1 [2,1]'' @ [CHR 0x0A]], None)"
  by (simp add: example_run_defs)

text \<open>
  C8: when the loop reaches an impression one of whose candidates has no vector in
  \<open>news2vector\<close> (the impressions before it were ranked and the count limit does not stop
  the loop first), ranking it raises \<open>KeyError\<close> for a missing candidate id, the file
  holds the lines of the earlier impressions only, and the run ends with that error: no
  later impression is processed.
\<close>

theorem missing_candidate_aborts_run:
  assumes "\<forall>b\<in>set pre. \<exists>l. predict_impression gp n2v u2v b = Inr l"
    and "max_count < 1 \<or> int (length pre) + 1 < max_count"
    and "\<exists>news\<in>set (impressions mb). n2v (news_id_of news) = None"
  shows "\<exists>k. n2v k = None \<and> k \<in> news_id_of ` set (impressions mb)
     \<and> predict_impression gp n2v u2v mb = Inl (KeyError k)
     \<and> write_predictions gp n2v u2v max_count (pre @ mb # rest) =
         (map (\<lambda>b. projr (predict_impression gp n2v u2v b)) pre, Some (KeyError k))"
proof -
  let ?out = "map (\<lambda>b. projr (predict_impression gp n2v u2v b)) pre"
  obtain k where k: "n2v k = None" "k \<in> news_id_of ` set (impressions mb)"
      "predict_impression gp n2v u2v mb = Inl (KeyError k)"
    using predict_impression_missing[OF assms(3)] by blast
  have "predict_loop gp n2v u2v max_count 0 [] (pre @ mb # rest) =
        predict_loop gp n2v u2v max_count (0 + int (length pre)) ([] @ ?out) (mb # rest)"
    using assms(1,2) by (intro predict_loop_prefix) auto
  also have "\<dots> = (?out, Some (KeyError k))"
    using assms(2) k(3) by auto
  finally have "write_predictions gp n2v u2v max_count (pre @ mb # rest) = (?out, Some (KeyError k))"
    by (simp add: write_predictions_def)
  with k show ?thesis by blast
qed

theorem missing_candidate_aborts_run_witness:
  "list_all (\<lambda>b. \<exists>l. predict_impression example_score example_news2vector example_user2vector b = Inr l)
     [example_behavior 1 [''N1-0'', ''N2-1'']]
   \<and> ((10::int) < 1 \<or> int (length [example_behavior 1 [''N1-0'', ''N2-1'']]) + 1 < 10)
   \<and> (\<exists>news\<in>set (impressions (example_behavior 2 [''N2-0'', ''N3-1''])).
         example_news2vector (news_id_of news) = None)
   \<and> (\<exists>k. example_news2vector k = None
        \<and> write_predictions example_score example_news2vector example_user2vector 10
             ([example_behavior 1 [''N1-0'', ''N2-1'']]
               @ example_behavior 2 [''N2-0'', ''N3-1'']
               # [example_behavior 3 [''N1-0'']])
           = ([''1 [2,1]'' @ [CHR 0x0A]], Some (KeyError k)))"
proof -
  let ?b1 = "example_behavior 1 [''N1-0'', ''N2-1'']"
  let ?p = "predict_impression example_score example_news2vector example_user2vector"
  have l1: "?p ?b1 = Inr (''1 [2,1]'' @ [CHR 0x0A])"
    by (simp add: example_run_defs)
  have h1: "\<forall>b\<in>set [?b1]. \<exists>l. ?p b = Inr l"
    using l1 by simp
  have h2: "(10::int) < 1 \<or> int (length [?b1]) + 1 < 10" by simp
  have h3: "\<exists>news\<in>set (impressions (example_behavior 2 [''N2-0'', ''N3-1''])).
         example_news2vector (news_id_of news) = None"
    by (simp add: example_behavior_def example_news2vector_def news_id_of_def)
  from missing_candidate_aborts_run [OF h1 h2 h3, of "[example_behavior 3 [''N1-0'']]"]
  have "\<exists>k. example_news2vector k = None
        \<and> write_predictions example_score example_news2vector example_user2vector 10
             ([?b1] @ example_behavior 2 [''N2-0'', ''N3-1''] # [example_behavior 3 [''N1-0'']])
           = ([''1 [2,1]'' @ [CHR 0x0A]], Some (KeyError k))"
    using l1 by auto
  moreover have "list_all (\<lambda>b. \<exists>l. ?p b = Inr l) [?b1]"
    using h1 by (simp only: list_all_iff)
  ultimately show ?thesis using h2 h3 by (intro conjI)
qed

section \<open>Properties of the vector dictionaries\<close>

lemma store_new_keeps: "d k = Some v \<Longrightarrow> store_new d kvs k = Some v"
proof (induction kvs arbitrary: d)
  case Nil
  then show ?case by simp
next
  case (Cons kv kvs)
  obtain k' v' where kv: "kv = (k', v')" by (cases kv)
  have "(if d k' = None then d(k' \<mapsto> v') else d) k = Some v"
    using Cons.prems by auto
  then show ?case unfolding kv by (simp only: store_new.simps Cons.IH)
qed

lemma news_step_keeps:
  "fst st k = Some v \<Longrightarrow> fst (news_step gnv st mb) k = Some v"
  by (cases st) (simp add: news_step_def store_new_keeps)

lemma news_loop_keeps:
  "fst st k = Some v \<Longrightarrow> fst (news_loop gnv st mbs) k = Some v"
  unfolding news_loop_def
  by (induction mbs arbitrary: st) (simp_all add: news_step_keeps)

lemma user_step_keeps:
  "fst st s = Some u \<Longrightarrow> user_step guv n2v st mb = Inr st' \<Longrightarrow> fst st' s = Some u"
  by (cases st) (auto simp: user_step_def store_new_keeps split: if_splits sum.splits)

lemma user_loop_keeps:
  "fst st s = Some u \<Longrightarrow> user_loop guv n2v st mbs = Inr st' \<Longrightarrow> fst st' s = Some u"
proof (induction mbs arbitrary: st)
  case Nil
  then show ?case by simp
next
  case (Cons mb mbs)
  then show ?case
    by (auto split: sum.splits dest: user_step_keeps)
qed

section \<open>Claims about the vector dictionaries\<close>

text \<open>
  C3, as stated, fails in its first half: the membership test guards the whole minibatch,
  not the single key.  After the minibatch \<open>[N1]\<close> has been encoded, the minibatch
  \<open>[N1, N2]\<close> holds the absent key \<open>N2\<close>, so it is handed to the encoder whole and \<open>N1\<close>
  is encoded a second time.
\<close>

theorem encoder_reinvoked_counterexample:
  "news_loop example_encoder (Map.empty, [])
     [example_news_batch [''N1''], example_news_batch [''N1'', ''N2'']]
   = ([''N1'' \<mapsto> 1, ''N2'' \<mapsto> 1], [[''N1''], [''N1'', ''N2'']])"
  by (simp add: news_loop_def news_step_def example_encoder_def example_news_batch_def)

text \<open>
  C3 (amended): for every key (news id or clicked-news-history string) already present
  in its dictionary, no further minibatch overwrites the cached value; a minibatch all of
  whose keys are present leaves the state unchanged and does not invoke the encoder; a
  minibatch with at least one absent key is handed to the encoder whole, its present keys
  included.
\<close>

theorem store_keeps_present_keys:
  "(fst st k = Some v \<longrightarrow> fst (news_loop gnv st mbs) k = Some v)
   \<and> (fst ust s = Some u \<and> user_loop guv n2v ust umbs = Inr ust' \<longrightarrow> fst ust' s = Some u)
   \<and> ((\<forall>id\<in>set (id_column mb). fst st id \<noteq> None) \<longrightarrow> news_step gnv st mb = st)
   \<and> ((\<forall>x\<in>set (user_strings umb). fst ust x \<noteq> None) \<longrightarrow> user_step guv n2v ust umb = Inr ust)
   \<and> ((\<exists>id\<in>set (id_column mb2). fst st id = None) \<longrightarrow>
         snd (news_step gnv st mb2) = snd st @ [id_column mb2])
   \<and> ((\<exists>x\<in>set (user_strings umb2). fst ust x = None) \<and> user_step guv n2v ust umb2 = Inr ust2 \<longrightarrow>
         snd ust2 = snd ust @ [user_strings umb2])"
proof -
  have a: "fst st k = Some v \<longrightarrow> fst (news_loop gnv st mbs) k = Some v"
    by (simp add: news_loop_keeps)
  have b: "fst ust s = Some u \<and> user_loop guv n2v ust umbs = Inr ust' \<longrightarrow> fst ust' s = Some u"
    using user_loop_keeps [of ust s u guv n2v umbs ust'] by simp
  have c: "(\<forall>id\<in>set (id_column mb). fst st id \<noteq> None) \<longrightarrow> news_step gnv st mb = st"
    by (cases st) (auto simp: news_step_def)
  have d: "(\<forall>x\<in>set (user_strings umb). fst ust x \<noteq> None) \<longrightarrow> user_step guv n2v ust umb = Inr ust"
    by (cases ust) (auto simp: user_step_def)
  have e: "(\<exists>id\<in>set (id_column mb2). fst st id = None) \<longrightarrow>
         snd (news_step gnv st mb2) = snd st @ [id_column mb2]"
    by (cases st) (auto simp: news_step_def)
  have f: "(\<exists>x\<in>set (user_strings umb2). fst ust x = None) \<and> user_step guv n2v ust umb2 = Inr ust2 \<longrightarrow>
         snd ust2 = snd ust @ [user_strings umb2]"
    by (cases ust) (auto simp: user_step_def split: sum.splits)
  from a b c d e f show ?thesis by (intro conjI)
qed

theorem store_keeps_present_keys_witness:
  "fst ([''N1'' \<mapsto> 1::real], [[''N1'']]) ''N1'' = Some 1
   \<and> fst (news_loop example_encoder ([''N1'' \<mapsto> 1], [[''N1'']])
            [example_news_batch [''N1'', ''N2'']]) ''N1'' = Some 1
   \<and> fst ([''N1'' \<mapsto> 2::real], [[''N1'']]) ''N1'' = Some 2
   \<and> user_loop example_user_encoder example_news2vector ([''N1'' \<mapsto> 2], [[''N1'']])
        [\<lparr>user_strings = [''N1'', ''N2''], clicked_news = [[''N1'', ''N2'']]\<rparr>]
      = Inr ([''N1'' \<mapsto> 2, ''N2'' \<mapsto> 2], [[''N1''], [''N1'', ''N2'']])
   \<and> fst ([''N1'' \<mapsto> 2::real, ''N2'' \<mapsto> 2], [[''N1''], [''N1'', ''N2'']]) ''N1'' = Some 2
   \<and> list_all (\<lambda>id. fst ([''N1'' \<mapsto> 1::real], [[''N1'']]) id \<noteq> None)
        (id_column (example_news_batch [''N1'']))
   \<and> news_step example_encoder ([''N1'' \<mapsto> 1], [[''N1'']]) (example_news_batch [''N1''])
      = ([''N1'' \<mapsto> 1], [[''N1'']])
   \<and> list_all (\<lambda>x. fst ([''N1'' \<mapsto> 2::real], [[''N1'']]) x \<noteq> None)
        (user_strings \<lparr>user_strings = [''N1''], clicked_news = [[''N1'']]\<rparr>)
   \<and> user_step example_user_encoder example_news2vector ([''N1'' \<mapsto> 2], [[''N1'']])
        \<lparr>user_strings = [''N1''], clicked_news = [[''N1'']]\<rparr>
      = Inr ([''N1'' \<mapsto> 2], [[''N1'']])
   \<and> (\<exists>id\<in>set (id_column (example_news_batch [''N1'', ''N2''])).
         fst ([''N1'' \<mapsto> 1::real], [[''N1'']]) id = None)
   \<and> snd (news_step example_encoder ([''N1'' \<mapsto> 1], [[''N1'']]) (example_news_batch [''N1'', ''N2'']))
      = [[''N1''], [''N1'', ''N2'']]
   \<and> (\<exists>x\<in>set (user_strings \<lparr>user_strings = [''N1'', ''N2''], clicked_news = [[''N1'', ''N2'']]\<rparr>).
         fst ([''N1'' \<mapsto> 2::real], [[''N1'']]) x = None)
   \<and> user_step example_user_encoder example_news2vector ([''N1'' \<mapsto> 2], [[''N1'']])
        \<lparr>user_strings = [''N1'', ''N2''], clicked_news = [[''N1'', ''N2'']]\<rparr>
      = Inr ([''N1'' \<mapsto> 2, ''N2'' \<mapsto> 2], [[''N1''], [''N1'', ''N2'']])"
proof -
  let ?st = "([''N1'' \<mapsto> 1::real], [[''N1'']])"
  let ?ust = "([''N1'' \<mapsto> 2::real], [[''N1'']])"
  let ?ust' = "([''N1'' \<mapsto> 2::real, ''N2'' \<mapsto> 2], [[''N1''], [''N1'', ''N2'']])"
  let ?umb = "\<lparr>user_strings = [''N1''], clicked_news = [[''N1'']]\<rparr>"
  let ?umb2 = "\<lparr>user_strings = [''N1'', ''N2''], clicked_news = [[''N1'', ''N2'']]\<rparr>"
  have h1: "fst ?st ''N1'' = Some 1" by simp
  have h2: "fst ?ust ''N1'' = Some 2" by simp
  have s2: "user_step example_user_encoder example_news2vector ?ust ?umb2 = Inr ?ust'"
    by (simp add: user_step_def clicked_news_vector_def stack_rows_def stack_def
        example_user_encoder_def example_news2vector_def transpose.simps)
  have h3: "user_loop example_user_encoder example_news2vector ?ust [?umb2] = Inr ?ust'"
    by (simp add: s2)
  have h4: "\<forall>id\<in>set (id_column (example_news_batch [''N1''])). fst ?st id \<noteq> None"
    by (simp add: example_news_batch_def)
  have h5: "\<forall>x\<in>set (user_strings ?umb). fst ?ust x \<noteq> None" by simp
  have h6: "\<exists>id\<in>set (id_column (example_news_batch [''N1'', ''N2''])). fst ?st id = None"
    by (simp add: example_news_batch_def)
  have h7: "\<exists>x\<in>set (user_strings ?umb2). fst ?ust x = None" by simp
  note t = store_keeps_present_keys [where st = ?st and k = "''N1''" and v = 1
      and gnv = example_encoder and mbs = "[example_news_batch [''N1'', ''N2'']]"
      and ust = ?ust and s = "''N1''" and u = 2 and guv = example_user_encoder
      and ?n2v = example_news2vector and umbs = "[?umb2]" and ust' = ?ust'
      and mb = "example_news_batch [''N1'']" and umb = ?umb
      and ?mb2.0 = "example_news_batch [''N1'', ''N2'']" and ?umb2.0 = ?umb2 and ?ust2.0 = ?ust']
  have c1: "fst (news_loop example_encoder ?st [example_news_batch [''N1'', ''N2'']]) ''N1'' = Some 1"
    using t h1 by blast
  have c2: "fst ?ust' ''N1'' = Some 2" using t h2 h3 by blast
  have c3: "news_step example_encoder ?st (example_news_batch [''N1'']) = ?st"
    using t h4 by blast
  have c4: "user_step example_user_encoder example_news2vector ?ust ?umb = Inr ?ust"
    using t h5 by blast
  have c5: "snd (news_step example_encoder ?st (example_news_batch [''N1'', ''N2'']))
      = snd ?st @ [id_column (example_news_batch [''N1'', ''N2''])]"
    using t h6 by blast
  have c5': "snd (news_step example_encoder ?st (example_news_batch [''N1'', ''N2'']))
      = [[''N1''], [''N1'', ''N2'']]"
    using c5 by (simp add: example_news_batch_def)
  have h4': "list_all (\<lambda>id. fst ?st id \<noteq> None) (id_column (example_news_batch [''N1'']))"
    using h4 by (simp only: list_all_iff)
  have h5': "list_all (\<lambda>x. fst ?ust x \<noteq> None) (user_strings ?umb)"
    using h5 by (simp only: list_all_iff)
  from h1 c1 h2 h3 c2 h4' c3 h5' c4 h6 c5' h7 s2 show ?thesis by (intro conjI)
qed

section \<open>Properties of \<open>neutralize_embeddings\<close>\<close>

lemma length_fcolumn: "length (fcolumn t i) = length (frows t)"
  by (simp add: fcolumn_def)

lemma neutralize_loop_run:
  assumes "aE < length h" and "aB < length h"
    and "fshape1 (h ! aE) = length (frows (h ! aB))"
  shows "\<exists>h'. neutralize_loop h aE aB is n = (h', Inr (if is = [] then n else Some (length h' - 1)))
     \<and> length h' = length h + length is
     \<and> (\<forall>a<length h. a \<noteq> aE \<longrightarrow> h' ! a = h ! a)
     \<and> fshape1 (h' ! aE) = fshape1 (h ! aE)
     \<and> length (frows (h' ! aE)) = length (frows (h ! aE))
     \<and> (aE \<noteq> aB \<longrightarrow> frows (h' ! aE) =
           fold (\<lambda>i. map (subtract_projection (fcolumn (h ! aB) i))) is (frows (h ! aE)))
     \<and> (is \<noteq> [] \<longrightarrow> h' ! (length h' - 1) =
           \<lparr>fshape1 = fshape1 (h ! aE), frows = map normalize_row (frows (h' ! aE))\<rparr>)"
  using assms
proof (induction "is" arbitrary: h n)
  case Nil
  then show ?case by simp
next
  case (Cons i "is")
  define component where "component = fcolumn (h ! aB) i"
  define updated where
    "updated = (h ! aE)\<lparr>frows := map (subtract_projection component) (frows (h ! aE))\<rparr>"
  define h1 where "h1 = h[aE := updated]"
  define quotient where
    "quotient = \<lparr>fshape1 = fshape1 updated, frows = map normalize_row (frows updated)\<rparr>"
  define h2 where "h2 = h1 @ [quotient]"
  have len1: "length h1 = length h" by (simp add: h1_def)
  have len2: "length h2 = Suc (length h)" by (simp add: h2_def len1)
  have ok: "fshape1 (h ! aE) = length component"
    using Cons.prems(3) by (simp add: component_def length_fcolumn)
  have step: "neutralize_loop h aE aB (i # is) n = neutralize_loop h2 aE aB is (Some (length h1))"
    using ok by (simp add: Let_def component_def updated_def h1_def quotient_def h2_def)
  have e2: "h2 ! aE = updated"
    using Cons.prems(1) by (simp add: h2_def h1_def nth_append)
  have old: "h2 ! a = h ! a" if "a < length h" "a \<noteq> aE" for a
    using that by (simp add: h2_def h1_def nth_append)
  have b2: "length (frows (h2 ! aB)) = length (frows (h ! aB))"
  proof (cases "aB = aE")
    case True
    then show ?thesis using e2 Cons.prems(3) ok by (simp add: updated_def)
  next
    case False
    then show ?thesis using old Cons.prems(2) by simp
  qed
  have pre: "aE < length h2" "aB < length h2" "fshape1 (h2 ! aE) = length (frows (h2 ! aB))"
    using Cons.prems len2 e2 b2 by (simp_all add: updated_def)
  obtain h' where run: "neutralize_loop h2 aE aB is (Some (length h1)) =
        (h', Inr (if is = [] then Some (length h1) else Some (length h' - 1)))"
    and l: "length h' = length h2 + length is"
    and keep: "\<forall>a<length h2. a \<noteq> aE \<longrightarrow> h' ! a = h2 ! a"
    and sh: "fshape1 (h' ! aE) = fshape1 (h2 ! aE)"
    and lr: "length (frows (h' ! aE)) = length (frows (h2 ! aE))"
    and rw: "aE \<noteq> aB \<longrightarrow> frows (h' ! aE) =
           fold (\<lambda>i. map (subtract_projection (fcolumn (h2 ! aB) i))) is (frows (h2 ! aE))"
    and lastq: "is \<noteq> [] \<longrightarrow> h' ! (length h' - 1) =
           \<lparr>fshape1 = fshape1 (h2 ! aE), frows = map normalize_row (frows (h' ! aE))\<rparr>"
    using Cons.IH[OF pre, of "Some (length h1)"] by blast
  have nil: "h' = h2" if "is = []"
    using run that by simp
  have c1: "neutralize_loop h aE aB (i # is) n = (h', Inr (Some (length h' - 1)))"
  proof (cases "is = []")
    case True
    then show ?thesis using step run nil[OF True] by (simp add: h2_def)
  next
    case False
    then show ?thesis using step run by simp
  qed
  have c2: "length h' = length h + length (i # is)"
    using l len2 by simp
  have c3: "\<forall>a<length h. a \<noteq> aE \<longrightarrow> h' ! a = h ! a"
    using keep old len2 by simp
  have c4: "fshape1 (h' ! aE) = fshape1 (h ! aE)"
    using sh e2 by (simp add: updated_def)
  have c5: "length (frows (h' ! aE)) = length (frows (h ! aE))"
    using lr e2 by (simp add: updated_def)
  have c6: "aE \<noteq> aB \<longrightarrow> frows (h' ! aE) =
           fold (\<lambda>i. map (subtract_projection (fcolumn (h ! aB) i))) (i # is) (frows (h ! aE))"
  proof
    assume ne: "aE \<noteq> aB"
    then have "h2 ! aB = h ! aB" using old Cons.prems(2) by simp
    then show "frows (h' ! aE) =
           fold (\<lambda>i. map (subtract_projection (fcolumn (h ! aB) i))) (i # is) (frows (h ! aE))"
      using rw ne e2 by (simp add: updated_def component_def)
  qed
  have c7: "h' ! (length h' - 1) =
           \<lparr>fshape1 = fshape1 (h ! aE), frows = map normalize_row (frows (h' ! aE))\<rparr>"
  proof (cases "is = []")
    case True
    have "h' = h2" using nil[OF True] .
    then show ?thesis using e2 by (simp add: h2_def quotient_def updated_def)
  next
    case False
    then show ?thesis using lastq e2 by (simp add: updated_def)
  qed
  from c1 c2 c3 c4 c5 c6 c7 show ?case by (intro exI[of _ h']) simp
qed

lemma neutralize_loop_mismatch:
  "fshape1 (h ! aE) \<noteq> length (frows (h ! aB)) \<Longrightarrow> is \<noteq> [] \<Longrightarrow>
   neutralize_loop h aE aB is n = (h, Inl RuntimeError)"
  by (cases "is") (simp_all add: length_fcolumn)

lemma foldl_fadd_Finite: "foldl fadd (Finite a) (map Finite xs) = Finite (a + sum_list xs)"
  by (induction xs arbitrary: a) (simp_all add: add.assoc)

lemma map2_fmul_Finite: "map2 fmul (map Finite x) (map Finite y) = map Finite (map2 (*) x y)"
  by (simp add: zip_map_map split_def)

lemma fdot_Finite: "fdot (map Finite x) (map Finite y) = Finite (dot x y)"
  by (simp only: fdot_def dot_def map2_fmul_Finite foldl_fadd_Finite) simp

lemma subtract_projection_Finite:
  "subtract_projection (map Finite c) (map Finite e) = map Finite (remove_projection c e)"
proof -
  have a: "map (\<lambda>x. fmul (Finite d) x) (map Finite c) = map Finite (map (\<lambda>x. d * x) c)" for d
    by simp
  have b: "map2 fsub (map Finite x) (map Finite y) = map Finite (map2 (-) x y)" for x y
    by (simp add: zip_map_map split_def fsub_def)
  show ?thesis
    by (simp only: subtract_projection_def remove_projection_def fdot_Finite a b)
qed

lemma fcolumn_tensor_of:
  assumes "well_shaped B" and "i < shape1 B"
  shows "fcolumn (tensor_of B) i = map Finite (column B i)"
proof -
  have "\<forall>r\<in>set (rows B). map Finite r ! i = Finite (r ! i)"
    using assms by (simp add: well_shaped_def list_all_iff)
  then show ?thesis by (simp add: fcolumn_def tensor_of_def column_def)
qed

lemma fold_subtract_Finite:
  assumes "well_shaped B" and "set is \<subseteq> {0..<shape1 B}"
  shows "fold (\<lambda>i. map (subtract_projection (fcolumn (tensor_of B) i))) is (map (map Finite) rs)
       = map (map Finite) (removed B is rs)"
  using assms(2)
proof (induction "is" arbitrary: rs)
  case Nil
  then show ?case by (simp add: removed_def)
next
  case (Cons i "is")
  have i: "i < shape1 B" using Cons.prems by simp
  let ?F = "\<lambda>i. map (subtract_projection (fcolumn (tensor_of B) i))"
  have step: "?F i (map (map Finite) rs) = map (map Finite) (map (remove_projection (column B i)) rs)"
    by (simp add: fcolumn_tensor_of[OF assms(1) i] subtract_projection_Finite)
  have "fold ?F (i # is) (map (map Finite) rs) = fold ?F is (?F i (map (map Finite) rs))"
    by simp
  also have "\<dots> = fold ?F is (map (map Finite) (map (remove_projection (column B i)) rs))"
    by (simp only: step)
  also have "\<dots> = map (map Finite) (removed B is (map (remove_projection (column B i)) rs))"
    using Cons.prems by (intro Cons.IH) simp
  also have "removed B is (map (remove_projection (column B i)) rs) = removed B (i # is) rs"
    by (simp add: removed_def)
  finally show ?case .
qed

lemma float32_max_pos: "0 < float32_max"
  by (simp add: float32_max_def)

lemma sum_squares_nonneg: "0 \<le> sum_list (map (\<lambda>x. x * x) (e::real list))"
  by (rule sum_list_nonneg) auto

lemma squares_Finite: "map (\<lambda>x. fmul x x) (map Finite e) = map Finite (map (\<lambda>x. x * x) e)"
  by simp

lemma embeddings_norm_Finite:
  "embeddings_norm (map Finite e) =
     (if float32_max < sum_list (map (\<lambda>x. x * x) e) then PosInf else Finite (l2norm e))"
proof -
  have s: "foldl fadd (Finite 0) (map (\<lambda>x. fmul x x) (map Finite e))
      = Finite (sum_list (map (\<lambda>x. x * x) e))"
    by (simp only: squares_Finite foldl_fadd_Finite) simp
  have "\<not> sum_list (map (\<lambda>x. x * x) e) < - float32_max"
    using sum_squares_nonneg[of e] float32_max_pos by linarith
  moreover have "\<not> sum_list (map (\<lambda>x. x * x) e) < 0"
    using sum_squares_nonneg[of e] by linarith
  ultimately show ?thesis
    unfolding embeddings_norm_def s by (simp add: l2norm_def)
qed


lemma normalize_row_in_range:
  assumes "sum_list (map (\<lambda>x. x * x) e) \<le> float32_max" and "l2norm e \<noteq> 0"
  shows "normalize_row (map Finite e) = map Finite (map (\<lambda>x. x / l2norm e) e)"
  using assms by (simp add: normalize_row_def embeddings_norm_Finite)

lemma normalize_row_overflow:
  assumes "float32_max < sum_list (map (\<lambda>x. x * x) e)"
  shows "normalize_row (map Finite e) = replicate (length e) (Finite 0)"
  using assms
  by (simp add: normalize_row_def embeddings_norm_Finite comp_def map_replicate_const)






lemma length_column: "length (column B i) = shape0 B"
  by (simp add: column_def shape0_def)

lemma length_removed: "length (removed B is rs) = length rs"
  unfolding removed_def by (induction "is" arbitrary: rs) simp_all

lemma removed_nth:
  "j < length rs \<Longrightarrow> removed B is rs ! j = fold (\<lambda>i. remove_projection (column B i)) is (rs ! j)"
  unfolding removed_def by (induction "is" arbitrary: rs) simp_all

lemma length_remove_projection:
  "length c = length e \<Longrightarrow> length (remove_projection c e) = length e"
  by (simp add: remove_projection_def)

lemma remove_projection_nth:
  "length c = length e \<Longrightarrow> a < length e \<Longrightarrow>
   remove_projection c e ! a = e ! a - dot e c * c ! a"
  by (simp add: remove_projection_def)

lemma dot_commute: "dot x y = dot y x"
proof (induction x arbitrary: y)
  case Nil
  then show ?case by (simp add: dot_def)
next
  case (Cons a x)
  then show ?case by (cases y) (simp_all add: dot_def mult.commute)
qed

lemma dot_self: "dot e e = sum_list (map (\<lambda>x. x * x) e)"
  by (induction e) (simp_all add: dot_def)

lemma dot_sub_scaled:
  "length e = length c \<Longrightarrow> length c = length d \<Longrightarrow>
   dot (map2 (-) e (map (\<lambda>x. a * x) c)) d = dot e d - a * dot c d"
proof (induction e c d rule: list_induct3)
  case Nil
  then show ?case by (simp add: dot_def)
next
  case (Cons x xs y ys z zs)
  then show ?case by (simp add: dot_def algebra_simps)
qed

lemma dot_remove_projection:
  "length e = length c \<Longrightarrow> length c = length d \<Longrightarrow>
   dot (remove_projection c e) d = dot e d - dot e c * dot c d"
  unfolding remove_projection_def by (rule dot_sub_scaled)

lemma dot_fold_remove:
  assumes "orthonormal_columns B" and "set is \<subseteq> {0..<shape1 B}" and "j < shape1 B"
    and "length e = shape0 B"
  shows "length (fold (\<lambda>i. remove_projection (column B i)) is e) = shape0 B
     \<and> dot (fold (\<lambda>i. remove_projection (column B i)) is e) (column B j)
         = (if j \<in> set is then 0 else dot e (column B j))"
  using assms(2,4)
proof (induction "is" arbitrary: e)
  case Nil
  then show ?case by simp
next
  case (Cons i "is")
  let ?e = "remove_projection (column B i) e"
  have i: "i < shape1 B" using Cons.prems(1) by simp
  have len: "length ?e = shape0 B"
    using Cons.prems(2) by (simp add: length_remove_projection length_column)
  have on: "dot (column B i) (column B j) = (if i = j then 1 else 0)"
    using assms(1,3) i by (simp add: orthonormal_columns_def)
  have d: "dot ?e (column B j) = dot e (column B j) - dot e (column B i) * dot (column B i) (column B j)"
    using Cons.prems(2) by (intro dot_remove_projection) (simp_all add: length_column)
  have ih: "length (fold (\<lambda>i. remove_projection (column B i)) is ?e) = shape0 B
     \<and> dot (fold (\<lambda>i. remove_projection (column B i)) is ?e) (column B j)
         = (if j \<in> set is then 0 else dot ?e (column B j))"
    using Cons.prems(1) len by (intro Cons.IH) simp_all
  show ?case using ih d on by auto
qed

text \<open>Removing the projection on a unit vector does not lengthen a vector.\<close>

lemma squares_remove_projection:
  assumes "length c = length e" and "dot c c = 1"
  shows "sum_list (map (\<lambda>x. x * x) (remove_projection c e))
       = sum_list (map (\<lambda>x. x * x) e) - dot e c * dot e c"
proof -
  let ?e = "remove_projection c e"
  have le: "length ?e = length e" using assms(1) by (rule length_remove_projection)
  have z: "dot ?e c = 0"
    using dot_remove_projection[of e c c] assms by simp
  have "dot ?e ?e = dot e ?e - dot e c * dot c ?e"
    using assms(1) le by (intro dot_remove_projection) simp_all
  also have "dot c ?e = 0" using z by (simp add: dot_commute)
  also have "dot e ?e = dot ?e e" by (rule dot_commute)
  also have "dot ?e e = dot e e - dot e c * dot c e"
    using assms(1) by (intro dot_remove_projection) simp_all
  also have "dot c e = dot e c" by (rule dot_commute)
  finally show ?thesis by (simp add: dot_self)
qed

lemma squares_fold_remove:
  assumes "orthonormal_columns B" and "set is \<subseteq> {0..<shape1 B}" and "length e = shape0 B"
  shows "sum_list (map (\<lambda>x. x * x) (fold (\<lambda>i. remove_projection (column B i)) is e))
       \<le> sum_list (map (\<lambda>x. x * x) e)"
  using assms(2,3)
proof (induction "is" arbitrary: e)
  case Nil
  then show ?case by simp
next
  case (Cons i "is")
  let ?e = "remove_projection (column B i) e"
  have i: "i < shape1 B" using Cons.prems(1) by simp
  have unit: "dot (column B i) (column B i) = 1"
    using assms(1) i by (simp add: orthonormal_columns_def)
  have lc: "length (column B i) = length e"
    using Cons.prems(2) by (simp add: length_column)
  have len: "length ?e = shape0 B"
    using lc Cons.prems(2) by (simp add: length_remove_projection)
  have "sum_list (map (\<lambda>x. x * x) ?e) = sum_list (map (\<lambda>x. x * x) e)
        - dot e (column B i) * dot e (column B i)"
    using lc unit by (rule squares_remove_projection)
  then have "sum_list (map (\<lambda>x. x * x) ?e) \<le> sum_list (map (\<lambda>x. x * x) e)"
    by simp
  moreover have "sum_list (map (\<lambda>x. x * x) (fold (\<lambda>i. remove_projection (column B i)) is ?e))
       \<le> sum_list (map (\<lambda>x. x * x) ?e)"
    using Cons.prems(1) len by (intro Cons.IH) simp_all
  ultimately show ?case by simp
qed

text \<open>With orthonormal columns the result is the vector minus its projections.\<close>

lemma fold_remove_explicit:
  assumes "orthonormal_columns B" and "length e = shape0 B" and "n \<le> shape1 B" and "a < shape0 B"
  shows "fold (\<lambda>i. remove_projection (column B i)) [0..<n] e ! a
       = e ! a - (\<Sum>i<n. dot e (column B i) * column B i ! a)"
  using assms(3)
proof (induction n)
  case 0
  then show ?case by simp
next
  case (Suc n)
  let ?g = "fold (\<lambda>i. remove_projection (column B i)) [0..<n] e"
  have n: "n < shape1 B" using Suc.prems by simp
  have g: "length ?g = shape0 B \<and> dot ?g (column B n) = (if n \<in> set [0..<n] then 0 else dot e (column B n))"
    using n by (intro dot_fold_remove[OF assms(1) _ _ assms(2)]) auto
  then have gl: "length ?g = shape0 B" and gd: "dot ?g (column B n) = dot e (column B n)"
    by simp_all
  have "fold (\<lambda>i. remove_projection (column B i)) [0..<Suc n] e = remove_projection (column B n) ?g"
    by simp
  then have "fold (\<lambda>i. remove_projection (column B i)) [0..<Suc n] e ! a
      = ?g ! a - dot ?g (column B n) * column B n ! a"
    using gl assms(4) by (simp add: remove_projection_nth length_column)
  also have "\<dots> = (e ! a - (\<Sum>i<n. dot e (column B i) * column B i ! a))
        - dot e (column B n) * column B n ! a"
    using Suc.IH n gd by simp
  finally show ?case by simp
qed


lemma dict_of_snoc: "dict_of (kvs @ [(k, v)]) = (dict_of kvs)(k \<mapsto> v)"
  by (simp add: dict_of_def)

lemma dict_of_nth:
  "distinct (map fst kvs) \<Longrightarrow> i < length kvs \<Longrightarrow> dict_of kvs (fst (kvs ! i)) = Some (snd (kvs ! i))"
proof (induction kvs rule: rev_induct)
  case Nil
  then show ?case by simp
next
  case (snoc kv kvs)
  obtain k v where kv: "kv = (k, v)" by (cases kv)
  show ?case
  proof (cases "i < length kvs")
    case True
    then have "fst (kvs ! i) \<in> fst ` set kvs" by simp
    then have "fst (kvs ! i) \<noteq> k" using snoc.prems(1) kv by auto
    moreover have "dict_of kvs (fst (kvs ! i)) = Some (snd (kvs ! i))"
      using snoc.IH snoc.prems(1) True by simp
    ultimately show ?thesis using True by (simp add: kv dict_of_snoc nth_append)
  next
    case False
    then have "i = length kvs" using snoc.prems(2) by simp
    then show ?thesis by (simp add: kv dict_of_snoc)
  qed
qed

lemma shape_tensor_of:
  "fshape1 (tensor_of t) = shape1 t" "frows (tensor_of t) = map (map Finite) (rows t)"
  by (simp_all add: tensor_of_def)

lemma float32_min_normal_pos: "0 < float32_min_normal"
  by (simp add: float32_min_normal_def)

lemma neutralize_embeddings_run:
  assumes "aE < length h" and "aB < length h"
    and "0 < fshape1 (h ! aB)" and "fshape1 (h ! aE) = length (frows (h ! aB))"
  shows "\<exists>h'. neutralize_embeddings h aE aB = (h', Inr (length h' - 1))
     \<and> length h' = length h + fshape1 (h ! aB)
     \<and> (\<forall>a<length h. a \<noteq> aE \<longrightarrow> h' ! a = h ! a)
     \<and> fshape1 (h' ! aE) = fshape1 (h ! aE)
     \<and> length (frows (h' ! aE)) = length (frows (h ! aE))
     \<and> (aE \<noteq> aB \<longrightarrow> frows (h' ! aE) =
           fold (\<lambda>i. map (subtract_projection (fcolumn (h ! aB) i))) [0..<fshape1 (h ! aB)]
             (frows (h ! aE)))
     \<and> h' ! (length h' - 1) =
           \<lparr>fshape1 = fshape1 (h ! aE), frows = map normalize_row (frows (h' ! aE))\<rparr>"
proof -
  let ?is = "[0..<fshape1 (h ! aB)]"
  have ne: "?is \<noteq> []" using assms(3) by simp
  obtain h' where run: "neutralize_loop h aE aB ?is None =
        (h', Inr (if ?is = [] then None else Some (length h' - 1)))"
    and rest: "length h' = length h + length ?is"
      "\<forall>a<length h. a \<noteq> aE \<longrightarrow> h' ! a = h ! a"
      "fshape1 (h' ! aE) = fshape1 (h ! aE)"
      "length (frows (h' ! aE)) = length (frows (h ! aE))"
      "aE \<noteq> aB \<longrightarrow> frows (h' ! aE) =
           fold (\<lambda>i. map (subtract_projection (fcolumn (h ! aB) i))) ?is (frows (h ! aE))"
      "?is \<noteq> [] \<longrightarrow> h' ! (length h' - 1) =
           \<lparr>fshape1 = fshape1 (h ! aE), frows = map normalize_row (frows (h' ! aE))\<rparr>"
    using neutralize_loop_run[OF assms(1,2,4), of ?is None] by blast
  have "neutralize_embeddings h aE aB = (h', Inr (length h' - 1))"
    using run ne by (simp add: neutralize_embeddings_def)
  then show ?thesis using rest ne by (intro exI[of _ h']) simp
qed

lemma neutralize_embeddings_finite:
  assumes "aE < length h" and "aB < length h" and "aE \<noteq> aB"
    and "h ! aE = tensor_of E" and "h ! aB = tensor_of B"
    and "well_shaped B" and "shape1 E = shape0 B" and "0 < shape1 B"
  shows "\<exists>h'. neutralize_embeddings h aE aB = (h', Inr (length h' - 1))
     \<and> length h' = length h + shape1 B
     \<and> (\<forall>a<length h. a \<noteq> aE \<longrightarrow> h' ! a = h ! a)
     \<and> h' ! aE = tensor_of (E\<lparr>rows := removed B [0..<shape1 B] (rows E)\<rparr>)
     \<and> h' ! (length h' - 1) =
           \<lparr>fshape1 = shape1 E,
            frows = map normalize_row (map (map Finite) (removed B [0..<shape1 B] (rows E)))\<rparr>"
proof -
  let ?P = "removed B [0..<shape1 B] (rows E)"
  have k: "0 < fshape1 (h ! aB)" using assms(5,8) by (simp add: shape_tensor_of)
  have sh: "fshape1 (h ! aE) = length (frows (h ! aB))"
    using assms(4,5,7) by (simp add: shape0_def shape_tensor_of)
  obtain h' where run: "neutralize_embeddings h aE aB = (h', Inr (length h' - 1))"
    and l: "length h' = length h + fshape1 (h ! aB)"
    and keep: "\<forall>a<length h. a \<noteq> aE \<longrightarrow> h' ! a = h ! a"
    and s1: "fshape1 (h' ! aE) = fshape1 (h ! aE)"
    and rw: "aE \<noteq> aB \<longrightarrow> frows (h' ! aE) =
           fold (\<lambda>i. map (subtract_projection (fcolumn (h ! aB) i))) [0..<fshape1 (h ! aB)]
             (frows (h ! aE))"
    and q: "h' ! (length h' - 1) =
           \<lparr>fshape1 = fshape1 (h ! aE), frows = map normalize_row (frows (h' ! aE))\<rparr>"
    using neutralize_embeddings_run[OF assms(1,2) k sh] by blast
  have "frows (h' ! aE) =
      fold (\<lambda>i. map (subtract_projection (fcolumn (tensor_of B) i))) [0..<shape1 B]
        (map (map Finite) (rows E))"
    using rw assms(3,4,5) by (simp add: shape_tensor_of)
  also have "\<dots> = map (map Finite) ?P"
    using assms(6) by (intro fold_subtract_Finite) simp_all
  finally have fr: "frows (h' ! aE) = map (map Finite) ?P" .
  have e': "h' ! aE = tensor_of (E\<lparr>rows := ?P\<rparr>)"
    using fr s1 assms(4) by (intro ftensor.equality) (simp_all add: shape_tensor_of)
  have "h' ! (length h' - 1) = \<lparr>fshape1 = shape1 E, frows = map normalize_row (map (map Finite) ?P)\<rparr>"
    using q fr assms(4) by (simp add: shape_tensor_of)
  then show ?thesis using run l keep e' assms(5)
    by (intro exI[of _ h']) (simp add: shape_tensor_of)
qed

lemma sqrt_four: "sqrt 4 = 2"
  using real_sqrt_abs [of 2] by simp

lemma sqrt_25: "sqrt 25 = 5"
  using real_sqrt_abs [of 5] by simp

lemmas neutralize_eval_defs =
  neutralize_embeddings_def tensor_of_def fcolumn_def subtract_projection_def fdot_def
  normalize_row_def embeddings_norm_def fsub_def float32_max_def




lemma example_hyps:
  "well_shaped example_E" "well_shaped example_B" "shape1 example_E = shape0 example_B"
  "0 < shape1 example_B" "orthonormal_columns example_B"
  "\<forall>e\<in>set (rows example_E). sum_list (map (\<lambda>x. x * x) e) \<le> float32_max"
  by (simp_all add: example_E_def example_B_def well_shaped_def shape0_def
      orthonormal_columns_def column_def dot_def float32_max_def)

section \<open>Claims about \<open>neutralize_embeddings\<close>\<close>







text \<open>
  C9: with a subspace of zero columns the loop body never runs, the local
  \<open>normalized_embeddings\<close> is never assigned, and the call raises
  \<open>UnboundLocalError\<close>; the store, and so the embeddings, are left as they were and
  nothing is returned.
\<close>

theorem zero_columns_raise:
  "fshape1 (h ! aB) = 0 \<Longrightarrow> neutralize_embeddings h aE aB = (h, Inl UnboundLocalError)"
  by (simp add: neutralize_embeddings_def)

theorem zero_columns_raise_witness:
  "fshape1 ([tensor_of \<lparr>shape1 = 2, rows = [[5, 2]]\<rparr>, tensor_of \<lparr>shape1 = 0, rows = [[], []]\<rparr>] ! 1) = 0
   \<and> neutralize_embeddings
        [tensor_of \<lparr>shape1 = 2, rows = [[5, 2]]\<rparr>, tensor_of \<lparr>shape1 = 0, rows = [[], []]\<rparr>] 0 1
      = ([tensor_of \<lparr>shape1 = 2, rows = [[5, 2]]\<rparr>, tensor_of \<lparr>shape1 = 0, rows = [[], []]\<rparr>],
         Inl UnboundLocalError)"
proof -
  let ?h = "[tensor_of \<lparr>shape1 = 2, rows = [[5, 2]]\<rparr>, tensor_of \<lparr>shape1 = 0, rows = [[], []]\<rparr>]"
  have h: "fshape1 (?h ! 1) = 0" by (simp add: tensor_of_def)
  from zero_columns_raise [OF h, of 0] h
  show ?thesis by (intro conjI)
qed

text \<open>
  C10: when the call returns (finite well-shaped tensors at distinct references,
  orthonormal columns, no overflow), the reference it returns is a new object, not the
  caller's tensor; the object at the caller's reference has changed and holds, in every
  row, the embedding minus its projections on the columns of the subspace, not
  renormalized; the bias subspace is unchanged; the rows divided by their norms are in
  the returned tensor only, and the new \<open>news2vector\<close> of the driver maps every news id
  to its row of the returned tensor.  For the embedding \<open>(1, 2)\<close> and the direction
  \<open>(3/5, 4/5)\<close> the caller's tensor holds \<open>(-8/25, 6/25)\<close>, of norm \<open>2/5\<close>, and the
  returned tensor and \<open>news2vector\<close> hold \<open>(-4/5, 3/5)\<close>.
\<close>

theorem neutralize_mutates_argument:
  assumes "aE < length h" and "aB < length h" and "aE \<noteq> aB"
    and "h ! aE = tensor_of E" and "h ! aB = tensor_of B"
    and "well_shaped E" and "well_shaped B" and "shape1 E = shape0 B" and "0 < shape1 B"
    and "orthonormal_columns B"
    and "\<forall>e\<in>set (rows E). sum_list (map (\<lambda>x. x * x) e) \<le> float32_max"
    and "distinct news_ids" and "length news_ids = shape0 E"
  shows "(\<exists>h' r E' news2vector'.
        neutralize_news2vector h news_ids aE aB = (h', Inr news2vector')
      \<and> neutralize_embeddings h aE aB = (h', Inr r)
      \<and> length h \<le> r \<and> r < length h'
      \<and> h' ! aB = h ! aB
      \<and> h' ! aE = tensor_of E' \<and> shape1 E' = shape1 E \<and> length (rows E') = shape0 E
      \<and> (\<forall>j<shape0 E.
            length (rows E' ! j) = shape1 E
            \<and> (\<forall>a<shape1 E. rows E' ! j ! a =
                  rows E ! j ! a - (\<Sum>i<shape1 B. dot (rows E ! j) (column B i) * column B i ! a))
            \<and> news2vector' (news_ids ! j) = Some (frows (h' ! r) ! j)
            \<and> (float32_min_normal \<le> sum_list (map (\<lambda>x. x * x) (rows E' ! j)) \<longrightarrow>
                  frows (h' ! r) ! j =
                    map (\<lambda>x. Finite (x / sqrt (sum_list (map (\<lambda>y. y * y) (rows E' ! j)))))
                      (rows E' ! j))))
     \<and> neutralize_news2vector
          [tensor_of \<lparr>shape1 = 2, rows = [[1, 2]]\<rparr>, tensor_of \<lparr>shape1 = 1, rows = [[3/5], [4/5]]\<rparr>]
          [''N1''] 0 1
        = ([tensor_of \<lparr>shape1 = 2, rows = [[-8/25, 6/25]]\<rparr>,
            tensor_of \<lparr>shape1 = 1, rows = [[3/5], [4/5]]\<rparr>,
            \<lparr>fshape1 = 2, frows = [[Finite (-4/5), Finite (3/5)]]\<rparr>],
           Inr [''N1'' \<mapsto> [Finite (-4/5), Finite (3/5)]])"
proof -
  let ?P = "removed B [0..<shape1 B] (rows E)"
  let ?E' = "E\<lparr>rows := ?P\<rparr>"
  obtain h' where run0: "neutralize_embeddings h aE aB = (h', Inr (length h' - 1))"
    and l: "length h' = length h + shape1 B"
    and keep: "\<forall>a<length h. a \<noteq> aE \<longrightarrow> h' ! a = h ! a"
    and e': "h' ! aE = tensor_of ?E'"
    and q0: "h' ! (length h' - 1) =
           \<lparr>fshape1 = shape1 E, frows = map normalize_row (map (map Finite) ?P)\<rparr>"
    using neutralize_embeddings_finite[OF assms(1,2,3,4,5,7,8,9)] by blast
  define r where "r = length h' - 1"
  define n2v where "n2v = dict_of (zip news_ids (frows (h' ! r)))"
  have run: "neutralize_embeddings h aE aB = (h', Inr r)" using run0 by (simp only: r_def)
  have "h' ! r = \<lparr>fshape1 = shape1 E, frows = map normalize_row (map (map Finite) ?P)\<rparr>"
    using q0 by (simp only: r_def)
  then have fr: "frows (h' ! r) = map normalize_row (map (map Finite) ?P)" by simp
  have drv: "neutralize_news2vector h news_ids aE aB = (h', Inr n2v)"
    using run by (simp add: neutralize_news2vector_def n2v_def)
  have fresh: "length h \<le> r" "r < length h'"
    using l assms(9) by (simp_all add: r_def)
  have bias: "h' ! aB = h ! aB" using keep assms(2,3) by simp
  have lenP: "length ?P = shape0 E" by (simp add: length_removed shape0_def)
  have lenR: "length (frows (h' ! r)) = length news_ids"
    using assms(13) lenP by (simp add: fr)
  have row: "length (?P ! j) = shape1 E
            \<and> (\<forall>a<shape1 E. ?P ! j ! a =
                  rows E ! j ! a - (\<Sum>i<shape1 B. dot (rows E ! j) (column B i) * column B i ! a))
            \<and> n2v (news_ids ! j) = Some (frows (h' ! r) ! j)
            \<and> (float32_min_normal \<le> sum_list (map (\<lambda>x. x * x) (?P ! j)) \<longrightarrow>
                  frows (h' ! r) ! j =
                    map (\<lambda>x. Finite (x / sqrt (sum_list (map (\<lambda>y. y * y) (?P ! j))))) (?P ! j))"
    if j: "j < shape0 E" for j
  proof -
    have jr: "j < length (rows E)" using j by (simp add: shape0_def)
    have lj: "length (rows E ! j) = shape0 B"
      using assms(6,8) jr by (simp add: well_shaped_def list_all_length)
    have pj: "?P ! j = fold (\<lambda>i. remove_projection (column B i)) [0..<shape1 B] (rows E ! j)"
      using jr by (rule removed_nth)
    have c1: "length (?P ! j) = shape1 E"
      using dot_fold_remove [OF assms(10) _ assms(9) lj, of "[0..<shape1 B]"] assms(8)
      by (simp add: pj)
    have c2: "?P ! j ! a =
          rows E ! j ! a - (\<Sum>i<shape1 B. dot (rows E ! j) (column B i) * column B i ! a)"
      if "a < shape1 E" for a
      unfolding pj using that assms(8)
      by (intro fold_remove_explicit[OF assms(10) lj]) simp_all
    have "dict_of (zip news_ids (frows (h' ! r))) (fst (zip news_ids (frows (h' ! r)) ! j))
        = Some (snd (zip news_ids (frows (h' ! r)) ! j))"
      using assms(12,13) lenR j by (intro dict_of_nth) (simp_all add: map_fst_zip)
    then have c3: "n2v (news_ids ! j) = Some (frows (h' ! r) ! j)"
      using assms(13) lenR j by (simp add: n2v_def)
    have "sum_list (map (\<lambda>x. x * x) (?P ! j)) \<le> sum_list (map (\<lambda>x. x * x) (rows E ! j))"
      unfolding pj by (rule squares_fold_remove[OF assms(10) _ lj]) simp
    moreover have "sum_list (map (\<lambda>x. x * x) (rows E ! j)) \<le> float32_max"
      using assms(11) jr by simp
    ultimately have rng: "sum_list (map (\<lambda>x. x * x) (?P ! j)) \<le> float32_max" by linarith
    have c4: "frows (h' ! r) ! j =
          map (\<lambda>x. Finite (x / sqrt (sum_list (map (\<lambda>y. y * y) (?P ! j))))) (?P ! j)"
      if big: "float32_min_normal \<le> sum_list (map (\<lambda>x. x * x) (?P ! j))"
    proof -
      have "0 < sum_list (map (\<lambda>x. x * x) (?P ! j))"
        using big float32_min_normal_pos by linarith
      then have nz: "l2norm (?P ! j) \<noteq> 0" by (simp add: l2norm_def)
      have "normalize_row (map Finite (?P ! j)) = map Finite (map (\<lambda>x. x / l2norm (?P ! j)) (?P ! j))"
        using rng nz by (rule normalize_row_in_range)
      then show ?thesis using j lenP by (simp add: fr l2norm_def comp_def)
    qed
    show ?thesis using c1 c2 c3 c4 by blast
  qed
  have general: "neutralize_news2vector h news_ids aE aB = (h', Inr n2v)
      \<and> neutralize_embeddings h aE aB = (h', Inr r)
      \<and> length h \<le> r \<and> r < length h'
      \<and> h' ! aB = h ! aB
      \<and> h' ! aE = tensor_of ?E' \<and> shape1 ?E' = shape1 E \<and> length (rows ?E') = shape0 E
      \<and> (\<forall>j<shape0 E.
            length (rows ?E' ! j) = shape1 E
            \<and> (\<forall>a<shape1 E. rows ?E' ! j ! a =
                  rows E ! j ! a - (\<Sum>i<shape1 B. dot (rows E ! j) (column B i) * column B i ! a))
            \<and> n2v (news_ids ! j) = Some (frows (h' ! r) ! j)
            \<and> (float32_min_normal \<le> sum_list (map (\<lambda>x. x * x) (rows ?E' ! j)) \<longrightarrow>
                  frows (h' ! r) ! j =
                    map (\<lambda>x. Finite (x / sqrt (sum_list (map (\<lambda>y. y * y) (rows ?E' ! j)))))
                      (rows ?E' ! j)))"
    using drv run fresh bias e' lenP row by simp
  have inst: "neutralize_news2vector
          [tensor_of \<lparr>shape1 = 2, rows = [[1, 2]]\<rparr>, tensor_of \<lparr>shape1 = 1, rows = [[3/5], [4/5]]\<rparr>]
          [''N1''] 0 1
        = ([tensor_of \<lparr>shape1 = 2, rows = [[-8/25, 6/25]]\<rparr>,
            tensor_of \<lparr>shape1 = 1, rows = [[3/5], [4/5]]\<rparr>,
            \<lparr>fshape1 = 2, frows = [[Finite (-4/5), Finite (3/5)]]\<rparr>],
           Inr [''N1'' \<mapsto> [Finite (-4/5), Finite (3/5)]])"
    by (simp add: neutralize_news2vector_def dict_of_def neutralize_eval_defs
        real_sqrt_divide sqrt_25 sqrt_four)
  from general have "\<exists>h' r E' news2vector'.
        neutralize_news2vector h news_ids aE aB = (h', Inr news2vector')
      \<and> neutralize_embeddings h aE aB = (h', Inr r)
      \<and> length h \<le> r \<and> r < length h'
      \<and> h' ! aB = h ! aB
      \<and> h' ! aE = tensor_of E' \<and> shape1 E' = shape1 E \<and> length (rows E') = shape0 E
      \<and> (\<forall>j<shape0 E.
            length (rows E' ! j) = shape1 E
            \<and> (\<forall>a<shape1 E. rows E' ! j ! a =
                  rows E ! j ! a - (\<Sum>i<shape1 B. dot (rows E ! j) (column B i) * column B i ! a))
            \<and> news2vector' (news_ids ! j) = Some (frows (h' ! r) ! j)
            \<and> (float32_min_normal \<le> sum_list (map (\<lambda>x. x * x) (rows E' ! j)) \<longrightarrow>
                  frows (h' ! r) ! j =
                    map (\<lambda>x. Finite (x / sqrt (sum_list (map (\<lambda>y. y * y) (rows E' ! j)))))
                      (rows E' ! j)))"
    by (intro exI[of _ h'] exI[of _ r] exI[of _ ?E'] exI[of _ n2v])
  with inst show ?thesis by (intro conjI)
qed

theorem neutralize_mutates_argument_witness:
  "(0::nat) < length [tensor_of example_E, tensor_of example_B]
   \<and> (1::nat) < length [tensor_of example_E, tensor_of example_B]
   \<and> (0::nat) \<noteq> 1
   \<and> well_shaped example_E \<and> well_shaped example_B \<and> shape1 example_E = shape0 example_B
   \<and> 0 < shape1 example_B \<and> orthonormal_columns example_B
   \<and> list_all (\<lambda>e. sum_list (map (\<lambda>x. x * x) e) \<le> float32_max) (rows example_E)
   \<and> distinct [''N1''] \<and> length [''N1''] = shape0 example_E
   \<and> (\<exists>h' r E' news2vector'.
        neutralize_news2vector [tensor_of example_E, tensor_of example_B] [''N1''] 0 1
          = (h', Inr news2vector')
      \<and> length [tensor_of example_E, tensor_of example_B] \<le> r
      \<and> h' ! 1 = tensor_of example_B
      \<and> h' ! 0 = tensor_of E'
      \<and> rows E' ! 0 ! 0 = rows example_E ! 0 ! 0
           - (\<Sum>i<shape1 example_B. dot (rows example_E ! 0) (column example_B i) * column example_B i ! 0)
      \<and> news2vector' ([''N1''] ! 0) = Some (frows (h' ! r) ! 0))"
proof -
  let ?h = "[tensor_of example_E, tensor_of example_B]"
  have h1: "(0::nat) < length ?h" and h2: "(1::nat) < length ?h" and h3: "(0::nat) \<noteq> 1"
    by simp_all
  have h4: "?h ! 0 = tensor_of example_E" and h5: "?h ! 1 = tensor_of example_B" by simp_all
  have h12: "distinct [''N1'']" by simp
  have h13: "length [''N1''] = shape0 example_E" by (simp add: shape0_def example_E_def)
  note t = neutralize_mutates_argument [OF h1 h2 h3 h4 h5 example_hyps h12 h13]
  obtain h' r E' n2v where drv: "neutralize_news2vector ?h [''N1''] 0 1 = (h', Inr n2v)"
    and fresh: "length ?h \<le> r"
    and bias: "h' ! 1 = ?h ! 1"
    and e': "h' ! 0 = tensor_of E'"
    and row: "\<forall>j<shape0 example_E.
            length (rows E' ! j) = shape1 example_E
            \<and> (\<forall>a<shape1 example_E. rows E' ! j ! a =
                  rows example_E ! j ! a
                  - (\<Sum>i<shape1 example_B. dot (rows example_E ! j) (column example_B i) * column example_B i ! a))
            \<and> n2v ([''N1''] ! j) = Some (frows (h' ! r) ! j)
            \<and> (float32_min_normal \<le> sum_list (map (\<lambda>x. x * x) (rows E' ! j)) \<longrightarrow>
                  frows (h' ! r) ! j =
                    map (\<lambda>x. Finite (x / sqrt (sum_list (map (\<lambda>y. y * y) (rows E' ! j)))))
                      (rows E' ! j))"
    using t by blast
  have j: "0 < shape0 example_E" and a: "0 < shape1 example_E"
    by (simp_all add: shape0_def example_E_def)
  have c1: "rows E' ! 0 ! 0 = rows example_E ! 0 ! 0
           - (\<Sum>i<shape1 example_B. dot (rows example_E ! 0) (column example_B i) * column example_B i ! 0)"
    using row j a by blast
  have c2: "n2v ([''N1''] ! 0) = Some (frows (h' ! r) ! 0)"
    using row j by blast
  have "\<exists>h' r E' news2vector'.
        neutralize_news2vector ?h [''N1''] 0 1 = (h', Inr news2vector')
      \<and> length ?h \<le> r
      \<and> h' ! 1 = tensor_of example_B
      \<and> h' ! 0 = tensor_of E'
      \<and> rows E' ! 0 ! 0 = rows example_E ! 0 ! 0
           - (\<Sum>i<shape1 example_B. dot (rows example_E ! 0) (column example_B i) * column example_B i ! 0)
      \<and> news2vector' ([''N1''] ! 0) = Some (frows (h' ! r) ! 0)"
    using drv fresh bias e' c1 c2 h5 by (intro exI[of _ h'] exI[of _ r] exI[of _ E'] exI[of _ n2v]) simp
  moreover have "list_all (\<lambda>e. sum_list (map (\<lambda>x. x * x) e) \<le> float32_max) (rows example_E)"
    using example_hyps(6) by (simp only: list_all_iff)
  ultimately show ?thesis using h1 h2 h3 example_hyps(1-5) h12 h13 by (intro conjI)
qed

section \<open>Properties of \<open>construct_c\<close>\<close>






























section \<open>Claims about \<open>construct_c\<close>\<close>



end
